theory Spec2Isabelle
  imports Main
begin

section \<open>Values, errors and the \<open>dict\<close> helper\<close>

text \<open>
  A Go \<^verbatim>\<open>interface{}\<close> value is either nil, a string, or a value of some other
  dynamic type; the type assertion \<^verbatim>\<open>values[i].(string)\<close> succeeds on the second
  kind only. A \<^verbatim>\<open>map[string]interface{}\<close> is a partial function on strings.
\<close>

datatype 'a iface = INil | IString string | IOther 'a

type_synonym 'a gomap = "string \<rightharpoonup> 'a iface"

text \<open>
  A call either returns an error value (\<^verbatim>\<open>errors.New(msg)\<close>, or an error of a
  library call) or panics at run time; both are kept apart from a normal result.
\<close>

datatype failure = Error string | Panic string

text \<open>
  The loop of \<^verbatim>\<open>dict\<close> (main.go, lines 39 to 45): \<open>i\<close> runs over the key
  positions in steps of two. Reading \<^verbatim>\<open>values[i+1]\<close> beyond the slice is a run-time
  panic in Go, so the model has that branch too.
\<close>

function dict_loop :: "'a iface list \<Rightarrow> nat \<Rightarrow> 'a gomap \<Rightarrow> failure + 'a gomap" where
  "dict_loop values i d =
     (if i < length values then
        (case values ! i of
           IString key \<Rightarrow>
             (if i + 1 < length values
              then dict_loop values (i + 2) (d(key \<mapsto> values ! (i + 1)))
              else Inl (Panic ''index out of range''))
         | _ \<Rightarrow> Inl (Error ''dict keys must be strings''))
      else Inr d)"
  by pat_completeness auto
termination
  by (relation "measure (\<lambda>(values, i, d). length values - i)") auto

declare dict_loop.simps [simp del]

definition dict :: "'a iface list \<Rightarrow> failure + 'a gomap" where
  "dict values =
     (if length values mod 2 \<noteq> 0 then Inl (Error ''invalid dict call'')
      else dict_loop values 0 Map.empty)"

section \<open>The environment of the program\<close>

text \<open>
  \<^verbatim>\<open>main\<close> calls the Go libraries \<^verbatim>\<open>os\<close>, \<^verbatim>\<open>html/template\<close>, \<^verbatim>\<open>log\<close> and
  \<^verbatim>\<open>net/http\<close>. They are not part of this repository; what they answer is a
  parameter of the model (the record \<open>world\<close> below), and what the program asks of
  them, in which order, is recorded as a list of events.
\<close>

type_synonym error = string

type_synonym 'a funcmap = "string \<rightharpoonup> ('a iface list \<Rightarrow> failure + 'a gomap)"

text \<open>
  A \<^verbatim>\<open>*template.Template\<close> before parsing: its name and the helper functions
  attached to it.
\<close>

record 'a template =
  tmpl_name :: string
  tmpl_funcs :: "'a funcmap"

definition template_New :: "string \<Rightarrow> 'a template" where
  "template_New name = \<lparr>tmpl_name = name, tmpl_funcs = Map.empty\<rparr>"

definition Funcs :: "'a funcmap \<Rightarrow> 'a template \<Rightarrow> 'a template" where
  "Funcs fm t = t\<lparr>tmpl_funcs := tmpl_funcs t ++ fm\<rparr>"

record request =
  req_method :: string
  req_path :: string

datatype 'a event =
    Println "string list"
  | TemplateNew string
  | TemplateFuncs "'a funcmap"
  | ParseFiles "'a template" "string list"
  | CachePut string
  | HandleFunc string
  | ListenAndServe string
  | Execute string "'a gomap option"
  | LogFatal "string list"

text \<open>
  The answers of the environment. \<open>'t\<close> is the type of a parsed template set.
  \<^item> \<open>os_Getwd\<close>: the working directory, or an error;
  \<^item> \<open>template_ParseFiles t files\<close>: the result of \<^verbatim>\<open>t.ParseFiles(files...)\<close>;
  \<^item> \<open>template_Execute u data\<close>: the bytes \<^verbatim>\<open>u.Execute(w, data)\<close> writes to the
    response, and the error it returns, if any;
  \<^item> \<open>http_route patterns r\<close>: the registered pattern whose handler the default
    \<^verbatim>\<open>ServeMux\<close> calls for the request, or \<open>None\<close> when it answers itself;
  \<^item> \<open>http_ListenAndServe addr\<close>: \<open>Some err\<close> when the call returns at once
    without serving (the address cannot be bound), \<open>None\<close> when it serves.
\<close>

record ('a, 't) world =
  os_Getwd :: "error + string"
  template_ParseFiles :: "'a template \<Rightarrow> string list \<Rightarrow> error + 't"
  template_Execute :: "'t \<Rightarrow> 'a gomap option \<Rightarrow> string \<times> error option"
  http_route :: "string list \<Rightarrow> request \<Rightarrow> string option"
  http_ListenAndServe :: "string \<Rightarrow> error option"

section \<open>Composing the pages: the start of \<open>main\<close>\<close>

definition pages :: "string list" where
  "pages = [''home'', ''about'']"

definition funcMap :: "'a funcmap" where
  "funcMap = [''dict'' \<mapsto> dict]"

text \<open>The files handed to \<^verbatim>\<open>ParseFiles\<close> for a page (main.go, lines 56 to 59).\<close>

definition fragment_files :: "string \<Rightarrow> string \<Rightarrow> string list" where
  "fragment_files dir page =
     [dir @ ''/templates/layout.tmpl'',
      dir @ ''/templates/sidebar.tmpl'',
      dir @ ''/templates/pages/'' @ page @ ''.tmpl'',
      dir @ ''/templates/headline.tmpl'']"

text \<open>
  The body of the loop up to the call of \<^verbatim>\<open>ParseFiles\<close> (lines 52 to 59): the events
  and the result of parsing.
\<close>

definition compose ::
  "('a, 't) world \<Rightarrow> string \<Rightarrow> string \<Rightarrow> 'a event list \<times> (error + 't)" where
  "compose w dir page =
     (let goTpl = Funcs funcMap (template_New ''layout.tmpl'');
          files = fragment_files dir page
      in ([TemplateNew ''layout.tmpl'', TemplateFuncs funcMap, ParseFiles goTpl files],
          template_ParseFiles w goTpl files))"

text \<open>
  The loop over the pages (lines 50 to 65). \<^verbatim>\<open>log.Fatal\<close> ends the process, so the
  loop stops at the first page that does not parse.
\<close>

fun build_cache ::
  "('a, 't) world \<Rightarrow> string \<Rightarrow> string list \<Rightarrow> (string \<rightharpoonup> 't) \<Rightarrow>
   'a event list \<times> (error + (string \<rightharpoonup> 't))" where
  "build_cache w dir [] cache = ([], Inr cache)"
| "build_cache w dir (page # rest) cache =
     (case compose w dir page of
        (evs, Inl err) \<Rightarrow> (evs @ [LogFatal [''error parsing files: '', err]], Inl err)
      | (evs, Inr goTpl) \<Rightarrow>
          (case build_cache w dir rest (cache(page \<mapsto> goTpl)) of
             (evs', r) \<Rightarrow> (evs @ [CachePut page] @ evs', r)))"

text \<open>
  Lines 23 to 65: the events so far and the cache, or \<open>None\<close> when the process has
  ended in \<^verbatim>\<open>log.Fatal\<close>.
\<close>

definition startup :: "('a, 't) world \<Rightarrow> 'a event list \<times> (string \<rightharpoonup> 't) option" where
  "startup w =
     (case os_Getwd w of
        Inl err \<Rightarrow> ([Println [''Can't get working dir. '', err], LogFatal [err]], None)
      | Inr dir \<Rightarrow>
          (case build_cache w dir pages Map.empty of
             (evs, Inl err) \<Rightarrow> (Println [''Working directory: '', dir] # evs, None)
           | (evs, Inr cache) \<Rightarrow> (Println [''Working directory: '', dir] # evs, Some cache)))"

section \<open>Serving requests: the rest of \<open>main\<close>\<close>

text \<open>
  What a handler does with one request: it returns after writing the body, or the
  process ends in \<^verbatim>\<open>log.Fatal\<close>, or the handler panics (a nil template: the key is
  not in the cache).
\<close>

datatype outcome = Returned string | Exited | Panicked

type_synonym 'a handler = "request \<Rightarrow> 'a event list \<times> outcome"

text \<open>The handler registered for \<^verbatim>\<open>"/"\<close> (lines 119 to 124).\<close>

definition handle_root ::
  "('a, 't) world \<Rightarrow> (string \<rightharpoonup> 't) \<Rightarrow> 'a handler" where
  "handle_root w cache r =
     (case cache ''home'' of
        None \<Rightarrow> ([], Panicked)
      | Some t \<Rightarrow>
          (case template_Execute w t (Some [''name'' \<mapsto> IString ''Jan'']) of
             (out, None) \<Rightarrow>
               ([Execute ''home'' (Some [''name'' \<mapsto> IString ''Jan''])], Returned out)
           | (out, Some err) \<Rightarrow>
               ([Execute ''home'' (Some [''name'' \<mapsto> IString ''Jan'']),
                 LogFatal [''can't execute template. '', err]], Exited)))"

text \<open>The handler registered for \<^verbatim>\<open>"/about"\<close> (lines 126 to 131).\<close>

definition handle_about ::
  "('a, 't) world \<Rightarrow> (string \<rightharpoonup> 't) \<Rightarrow> 'a handler" where
  "handle_about w cache r =
     (case cache ''about'' of
        None \<Rightarrow> ([], Panicked)
      | Some t \<Rightarrow>
          (case template_Execute w t None of
             (out, None) \<Rightarrow> ([Execute ''about'' None], Returned out)
           | (out, Some err) \<Rightarrow>
               ([Execute ''about'' None,
                 LogFatal [''can't execute template. '', err]], Exited)))"

text \<open>
  The two calls of \<^verbatim>\<open>http.HandleFunc\<close> fill the default mux with these entries.
\<close>

definition handlers ::
  "('a, 't) world \<Rightarrow> (string \<rightharpoonup> 't) \<Rightarrow> (string \<times> 'a handler) list" where
  "handlers w cache = [(''/'', handle_root w cache), (''/about'', handle_about w cache)]"

text \<open>
  What a client gets: the body a handler wrote, the mux's own answer (no handler
  was called), or a dropped connection after a handler's panic.
\<close>

datatype reply = Rendered string | MuxReply | Dropped

text \<open>One request: the mux chooses a registered pattern and calls its handler.\<close>

definition dispatch ::
  "('a, 't) world \<Rightarrow> (string \<times> 'a handler) list \<Rightarrow> request \<Rightarrow>
   'a event list \<times> outcome option" where
  "dispatch w mux r =
     (case http_route w (map fst mux) r of
        None \<Rightarrow> ([], None)
      | Some pattern \<Rightarrow>
          (case map_of mux pattern of
             None \<Rightarrow> ([], None)
           | Some h \<Rightarrow> (case h r of (evs, oc) \<Rightarrow> (evs, Some oc))))"

text \<open>
  The requests are handled one after the other until the process ends; the
  result is the events, the replies sent, and whether the process is still running.
\<close>

fun serve ::
  "('a, 't) world \<Rightarrow> (string \<times> 'a handler) list \<Rightarrow> request list \<Rightarrow>
   'a event list \<times> reply list \<times> bool" where
  "serve w mux [] = ([], [], True)"
| "serve w mux (r # rs) =
     (case dispatch w mux r of
        (evs, Some Exited) \<Rightarrow> (evs, [], False)
      | (evs, oc) \<Rightarrow>
          (case serve w mux rs of
             (evs', replies, running) \<Rightarrow>
               (evs @ evs',
                (case oc of
                   None \<Rightarrow> MuxReply
                 | Some (Returned out) \<Rightarrow> Rendered out
                 | Some _ \<Rightarrow> Dropped) # replies,
                running)))"

text \<open>
  The whole of \<^verbatim>\<open>main\<close> on a sequence of inbound requests: the events of the
  process and the replies it sent.
\<close>

definition main :: "('a, 't) world \<Rightarrow> request list \<Rightarrow> 'a event list \<times> reply list" where
  "main w reqs =
     (case startup w of
        (evs, None) \<Rightarrow> (evs, [])
      | (evs, Some cache) \<Rightarrow>
          (let mux = handlers w cache;
               evs1 = evs @ [HandleFunc ''/'', HandleFunc ''/about'',
                             Println [''Serving...''], ListenAndServe '':8080'']
           in (case http_ListenAndServe w '':8080'' of
                 Some err \<Rightarrow> (evs1, [])
               | None \<Rightarrow>
                   (case serve w mux reqs of
                      (evs2, replies, running) \<Rightarrow> (evs1 @ evs2, replies)))))"

section \<open>A property of event lists, and sample environments\<close>


text \<open>
  An environment to run the model in: the working directory is \<^verbatim>\<open>/srv\<close>; parsing
  fails when \<^verbatim>\<open>dict\<close> is not attached or when one of the files is the missing one,
  and yields the concatenated file names otherwise; rendering appends the name
  found in the data, and fails on nil data when \<open>strict\<close> is set; the mux sends
  \<^verbatim>\<open>/about\<close> to its handler and every other path to the handler of \<^verbatim>\<open>/\<close>.
\<close>

definition demo_world :: "string option \<Rightarrow> bool \<Rightarrow> (int, string) world" where
  "demo_world missing strict = \<lparr>
     os_Getwd = Inr ''/srv'',
     template_ParseFiles = (\<lambda>t files.
       case tmpl_funcs t ''dict'' of
         None \<Rightarrow> Inl ''function dict not defined''
       | Some f \<Rightarrow>
           (case missing of
              None \<Rightarrow> Inr (concat files)
            | Some m \<Rightarrow> if m \<in> set files then Inl ''no such file'' else Inr (concat files))),
     template_Execute = (\<lambda>u data.
       case data of
         None \<Rightarrow> (u, if strict then Some ''nil data'' else None)
       | Some m \<Rightarrow>
           (case m ''name'' of
              Some (IString n) \<Rightarrow> (u @ n, None)
            | _ \<Rightarrow> (u, Some ''no name''))),
     http_route = (\<lambda>patterns r.
       if req_path r = ''/about'' then Some ''/about'' else Some ''/''),
     http_ListenAndServe = (\<lambda>addr. None)\<rparr>"

section \<open>Properties of \<open>dict\<close>\<close>

lemma dict_loop_step:
  "i < length vs \<Longrightarrow> vs ! i = IString key \<Longrightarrow> i + 1 < length vs \<Longrightarrow>
   dict_loop vs i d = dict_loop vs (i + 2) (d(key \<mapsto> vs ! (i + 1)))"
  by (subst dict_loop.simps) simp

lemma dict_loop_not_string:
  "i < length vs \<Longrightarrow> \<forall>key. vs ! i \<noteq> IString key \<Longrightarrow>
   dict_loop vs i d = Inl (Error ''dict keys must be strings'')"
  by (subst dict_loop.simps) (simp split: iface.splits)

lemma dict_loop_done:
  "\<not> i < length vs \<Longrightarrow> dict_loop vs i d = Inr d"
  by (subst dict_loop.simps) simp

lemma even_next_in_range:
  "even (length vs) \<Longrightarrow> even i \<Longrightarrow> i < length vs \<Longrightarrow> i + 1 < length vs"
  by (metis Suc_eq_plus1 Suc_lessI even_Suc)

lemma dict_loop_no_panic:
  "even (length vs) \<Longrightarrow> even i \<Longrightarrow> dict_loop vs i d \<noteq> Inl (Panic p)"
proof (induction vs i d rule: dict_loop.induct)
  case (1 vs i d)
  show ?case
  proof (cases "i < length vs")
    case False
    then show ?thesis by (simp add: dict_loop_done)
  next
    case True
    with "1.prems" have nxt: "i + 1 < length vs"
      by (rule_tac even_next_in_range)
    show ?thesis
    proof (cases "\<exists>key. vs ! i = IString key")
      case True
      then obtain key where k: "vs ! i = IString key" by blast
      from "1.prems" have e2: "even (i + 2)" by simp
      have "dict_loop vs (i + 2) (d(key \<mapsto> vs ! (i + 1))) \<noteq> Inl (Panic p)"
        by (rule "1.IH" [OF \<open>i < length vs\<close> k nxt "1.prems"(1) e2])
      then show ?thesis
        using dict_loop_step [OF \<open>i < length vs\<close> k nxt] by simp
    next
      case False
      then show ?thesis
        using dict_loop_not_string [OF \<open>i < length vs\<close>] by simp
    qed
  qed
qed

lemma dict_loop_error_iff:
  "even (length vs) \<Longrightarrow> even i \<Longrightarrow>
   (\<exists>msg. dict_loop vs i d = Inl (Error msg)) \<longleftrightarrow>
   (\<exists>j. i \<le> j \<and> j < length vs \<and> even j \<and> (\<forall>key. vs ! j \<noteq> IString key))"
proof (induction vs i d rule: dict_loop.induct)
  case (1 vs i d)
  show ?case
  proof (cases "i < length vs")
    case False
    then show ?thesis by (simp add: dict_loop_done)
  next
    case True
    with "1.prems" have nxt: "i + 1 < length vs"
      by (rule_tac even_next_in_range)
    show ?thesis
    proof (cases "\<exists>key. vs ! i = IString key")
      case True
      then obtain key where k: "vs ! i = IString key" by blast
      from "1.prems" have e2: "even (i + 2)" by simp
      have ih: "(\<exists>msg. dict_loop vs (i + 2) (d(key \<mapsto> vs ! (i + 1))) = Inl (Error msg)) \<longleftrightarrow>
        (\<exists>j. i + 2 \<le> j \<and> j < length vs \<and> even j \<and> (\<forall>key. vs ! j \<noteq> IString key))"
        by (rule "1.IH" [OF \<open>i < length vs\<close> k nxt "1.prems"(1) e2])
      have "(\<exists>j. i \<le> j \<and> j < length vs \<and> even j \<and> (\<forall>key. vs ! j \<noteq> IString key)) \<longleftrightarrow>
        (\<exists>j. i + 2 \<le> j \<and> j < length vs \<and> even j \<and> (\<forall>key. vs ! j \<noteq> IString key))"
      proof
        assume "\<exists>j. i \<le> j \<and> j < length vs \<and> even j \<and> (\<forall>key. vs ! j \<noteq> IString key)"
        then obtain j where j: "i \<le> j" "j < length vs" "even j" "\<forall>key. vs ! j \<noteq> IString key"
          by blast
        with k have "j \<noteq> i" by auto
        moreover from j \<open>even i\<close> have "j \<noteq> i + 1" by auto
        ultimately have "i + 2 \<le> j" using j by arith
        with j show "\<exists>j. i + 2 \<le> j \<and> j < length vs \<and> even j \<and> (\<forall>key. vs ! j \<noteq> IString key)"
          by blast
      next
        assume "\<exists>j. i + 2 \<le> j \<and> j < length vs \<and> even j \<and> (\<forall>key. vs ! j \<noteq> IString key)"
        then show "\<exists>j. i \<le> j \<and> j < length vs \<and> even j \<and> (\<forall>key. vs ! j \<noteq> IString key)"
          by (meson add_leD1)
      qed
      with ih show ?thesis
        using dict_loop_step [OF \<open>i < length vs\<close> k nxt] by simp
    next
      case False
      then have "dict_loop vs i d = Inl (Error ''dict keys must be strings'')"
        using dict_loop_not_string [OF \<open>i < length vs\<close>] by simp
      moreover have "\<exists>j. i \<le> j \<and> j < length vs \<and> even j \<and> (\<forall>key. vs ! j \<noteq> IString key)"
        using False \<open>i < length vs\<close> \<open>even i\<close> by blast
      ultimately show ?thesis by simp
    qed
  qed
qed

lemma dict_loop_error_msg:
  "dict_loop vs i d = Inl (Error msg) \<Longrightarrow> msg = ''dict keys must be strings''"
proof (induction vs i d rule: dict_loop.induct)
  case (1 vs i d)
  show ?case
  proof (cases "i < length vs \<and> i + 1 < length vs \<and> (\<exists>key. vs ! i = IString key)")
    case True
    then obtain key where k: "i < length vs" "vs ! i = IString key" "i + 1 < length vs"
      by blast
    from "1.prems" have "dict_loop vs (i + 2) (d(key \<mapsto> vs ! (i + 1))) = Inl (Error msg)"
      by (simp add: dict_loop_step [OF k])
    then show ?thesis by (rule "1.IH" [OF k])
  next
    case False
    with "1.prems" show ?thesis
      by (subst (asm) dict_loop.simps) (auto split: if_splits iface.splits)
  qed
qed

lemma dict_loop_lookup:
  "dict_loop vs i d = Inr m \<Longrightarrow> even i \<Longrightarrow>
   (\<forall>j. i \<le> j \<and> j < length vs \<and> even j \<and> vs ! j = IString k \<and>
        (\<forall>l. j < l \<and> l < length vs \<and> even l \<longrightarrow> vs ! l \<noteq> IString k)
        \<longrightarrow> m k = Some (vs ! (j + 1))) \<and>
   ((\<forall>j. i \<le> j \<and> j < length vs \<and> even j \<longrightarrow> vs ! j \<noteq> IString k) \<longrightarrow> m k = d k)"
proof (induction vs i d rule: dict_loop.induct)
  case (1 vs i d)
  show ?case
  proof (cases "i < length vs")
    case False
    with "1.prems" have "m = d" by (simp add: dict_loop_done)
    with False show ?thesis by auto
  next
    case True
    from "1.prems"(1) True obtain key where k: "vs ! i = IString key" and nxt: "i + 1 < length vs"
      by (subst (asm) dict_loop.simps) (auto split: if_splits iface.splits)
    let ?d = "d(key \<mapsto> vs ! (i + 1))"
    from "1.prems" have e2: "even (i + 2)" by simp
    from "1.prems"(1) have res: "dict_loop vs (i + 2) ?d = Inr m"
      by (simp add: dict_loop_step [OF True k nxt])
    note ih = "1.IH" [OF True k nxt res e2]
    from ih have ih1: "\<And>j. i + 2 \<le> j \<Longrightarrow> j < length vs \<Longrightarrow> even j \<Longrightarrow> vs ! j = IString k \<Longrightarrow>
        (\<forall>l. j < l \<and> l < length vs \<and> even l \<longrightarrow> vs ! l \<noteq> IString k) \<Longrightarrow> m k = Some (vs ! (j + 1))"
      by blast
    from ih have ih2: "(\<forall>j. i + 2 \<le> j \<and> j < length vs \<and> even j \<longrightarrow> vs ! j \<noteq> IString k) \<Longrightarrow> m k = ?d k"
      by blast
    have step: "j = i \<or> i + 2 \<le> j" if "i \<le> j" "even j" for j
    proof -
      from that \<open>even i\<close> have "j \<noteq> i + 1" by auto
      with that show ?thesis by arith
    qed
    have part1: "m k = Some (vs ! (j + 1))"
      if j: "i \<le> j" "j < length vs" "even j" "vs ! j = IString k"
        "\<forall>l. j < l \<and> l < length vs \<and> even l \<longrightarrow> vs ! l \<noteq> IString k" for j
    proof (cases "j = i")
      case True
      with j k have kk: "key = k" by simp
      from j True have "\<forall>l. i + 2 \<le> l \<and> l < length vs \<and> even l \<longrightarrow> vs ! l \<noteq> IString k"
        by auto
      then have "m k = ?d k" by (rule ih2)
      with kk True show ?thesis by simp
    next
      case False
      with step [OF j(1) j(3)] have "i + 2 \<le> j" by simp
      then show ?thesis using j by (intro ih1) auto
    qed
    have part2: "m k = d k"
      if none: "\<forall>j. i \<le> j \<and> j < length vs \<and> even j \<longrightarrow> vs ! j \<noteq> IString k"
    proof -
      from none True \<open>even i\<close> k have "key \<noteq> k" by auto
      moreover from none have "\<forall>j. i + 2 \<le> j \<and> j < length vs \<and> even j \<longrightarrow> vs ! j \<noteq> IString k"
        by auto
      then have "m k = ?d k" by (rule ih2)
      ultimately show ?thesis by simp
    qed
    from part1 part2 show ?thesis by blast
  qed
qed

lemma dict_cases:
  "dict vs =
     (if odd (length vs) then Inl (Error ''invalid dict call'') else dict_loop vs 0 Map.empty)"
  by (simp add: dict_def odd_iff_mod_2_eq_one)

text \<open>
  Claim C2. \<open>dict\<close> returns an error (the spec's \<^verbatim>\<open>InvalidArgumentError\<close>; in the
  source, a value made by \<^verbatim>\<open>errors.New\<close>) when the number of arguments is odd or
  the argument at some even index is not a string. Otherwise it succeeds: every
  argument at an even index is a string key, and the mapping returned sends it to
  the argument that follows it (whenever the same key is not given again further
  right); a key that is not an argument at an even index is not in the mapping.
\<close>

theorem dict_fails_iff_and_pairs:
  "if odd (length vs) \<or> (\<exists>i<length vs. even i \<and> (\<forall>key. vs ! i \<noteq> IString key))
   then \<exists>msg. dict vs = Inl (Error msg)
   else \<exists>m. dict vs = Inr m \<and>
      (\<forall>i<length vs. even i \<longrightarrow>
         (\<exists>key. vs ! i = IString key \<and>
            ((\<forall>j<length vs. i < j \<and> even j \<longrightarrow> vs ! j \<noteq> vs ! i) \<longrightarrow>
               m key = Some (vs ! (i + 1))))) \<and>
      (\<forall>key. (\<forall>i<length vs. even i \<longrightarrow> vs ! i \<noteq> IString key) \<longrightarrow> m key = None)"
proof (cases "odd (length vs)")
  case True
  then show ?thesis by (simp add: dict_cases)
next
  case ev: False
  then have d: "dict vs = dict_loop vs 0 Map.empty" by (simp add: dict_cases)
  from ev have iff: "(\<exists>msg. dict_loop vs 0 Map.empty = Inl (Error msg)) \<longleftrightarrow>
      (\<exists>j. 0 \<le> j \<and> j < length vs \<and> even j \<and> (\<forall>key. vs ! j \<noteq> IString key))"
    by (intro dict_loop_error_iff) simp_all
  show ?thesis
  proof (cases "\<exists>i<length vs. even i \<and> (\<forall>key. vs ! i \<noteq> IString key)")
    case True
    with iff have "\<exists>msg. dict_loop vs 0 Map.empty = Inl (Error msg)" by blast
    with True d show ?thesis by simp
  next
    case strings: False
    with iff have noerr: "\<And>msg. dict_loop vs 0 Map.empty \<noteq> Inl (Error msg)" by blast
    from ev have nopanic: "\<And>p. dict_loop vs 0 Map.empty \<noteq> Inl (Panic p)"
      using dict_loop_no_panic [of vs 0 Map.empty] by simp
    obtain m where loop: "dict_loop vs 0 Map.empty = Inr m"
    proof (cases "dict_loop vs 0 Map.empty")
      case (Inl f)
      with noerr nopanic show ?thesis by (cases f) auto
    next
      case (Inr m)
      with that show ?thesis .
    qed
    have pairs: "\<exists>key. vs ! i = IString key \<and>
            ((\<forall>j<length vs. i < j \<and> even j \<longrightarrow> vs ! j \<noteq> vs ! i) \<longrightarrow>
               m key = Some (vs ! (i + 1)))"
      if i: "i < length vs" "even i" for i
    proof -
      from strings i obtain key where key: "vs ! i = IString key" by auto
      have "m key = Some (vs ! (i + 1))"
        if "\<forall>j<length vs. i < j \<and> even j \<longrightarrow> vs ! j \<noteq> vs ! i"
        using dict_loop_lookup [OF loop, of key] i key that by auto
      with key show ?thesis by blast
    qed
    have absent: "m key = None"
      if "\<forall>i<length vs. even i \<longrightarrow> vs ! i \<noteq> IString key" for key
      using dict_loop_lookup [OF loop, of key] that by auto
    from ev strings d loop pairs absent show ?thesis by auto
  qed
qed

text \<open>
  The three calls of the spec: \<^verbatim>\<open>dict("a", 1, "b", 2)\<close> is the mapping of \<^verbatim>\<open>a\<close> to 1
  and \<^verbatim>\<open>b\<close> to 2, \<^verbatim>\<open>dict("a", 1, "b")\<close> and \<^verbatim>\<open>dict(1, "x")\<close> fail.
\<close>

theorem dict_fails_iff_and_pairs_witness:
  "(\<exists>m. dict [IString ''a'', IOther (1::int), IString ''b'', IOther 2] = Inr m \<and>
        m ''a'' = Some (IOther 1) \<and> m ''b'' = Some (IOther 2) \<and> m ''c'' = None) \<and>
   (\<exists>msg. dict [IString ''a'', IOther (1::int), IString ''b''] = Inl (Error msg)) \<and>
   (\<exists>msg. dict [IOther (1::int), IString ''x''] = Inl (Error msg))"
proof (intro conjI)
  let ?vs = "[IString ''a'', IOther (1::int), IString ''b'', IOther 2]"
  have cond: "\<not> (odd (length ?vs) \<or> (\<exists>i<length ?vs. even i \<and> (\<forall>key. ?vs ! i \<noteq> IString key)))"
    by (simp add: Ex_less_Suc)
  from dict_fails_iff_and_pairs [of ?vs] cond obtain m where m: "dict ?vs = Inr m"
    and pairs: "\<forall>i<length ?vs. even i \<longrightarrow>
         (\<exists>key. ?vs ! i = IString key \<and>
            ((\<forall>j<length ?vs. i < j \<and> even j \<longrightarrow> ?vs ! j \<noteq> ?vs ! i) \<longrightarrow>
               m key = Some (?vs ! (i + 1))))"
    and absent: "\<forall>key. (\<forall>i<length ?vs. even i \<longrightarrow> ?vs ! i \<noteq> IString key) \<longrightarrow> m key = None"
    by (simp only: if_False) blast
  from pairs [rule_format, of 0] have a: "m ''a'' = Some (IOther 1)"
    by (simp add: All_less_Suc)
  from pairs [rule_format, of 2] have b: "m ''b'' = Some (IOther 2)"
    by (simp add: All_less_Suc)
  from spec [OF absent, of "''c''"] have c: "m ''c'' = None"
    by (simp add: All_less_Suc)
  from m a b c show "\<exists>m. dict ?vs = Inr m \<and>
        m ''a'' = Some (IOther 1) \<and> m ''b'' = Some (IOther 2) \<and> m ''c'' = None"
    by blast
next
  show "\<exists>msg. dict [IString ''a'', IOther (1::int), IString ''b''] = Inl (Error msg)"
    using dict_fails_iff_and_pairs [of "[IString ''a'', IOther (1::int), IString ''b'']"]
    by simp
next
  have "\<exists>i<length [IOther (1::int), IString ''x'']. even i \<and>
      (\<forall>key. [IOther (1::int), IString ''x''] ! i \<noteq> IString key)"
    by (simp add: Ex_less_Suc)
  then show "\<exists>msg. dict [IOther (1::int), IString ''x''] = Inl (Error msg)"
    using dict_fails_iff_and_pairs [of "[IOther (1::int), IString ''x'']"]
    by (simp only: if_True simp_thms)
qed

text \<open>
  Claim C10. On an argument list of even length whose arguments at even indices
  are all strings, \<open>dict\<close> succeeds, also when keys repeat: a key is mapped to the
  argument that follows its last occurrence at an even index. With no argument
  at all the result is the empty mapping.
\<close>

theorem dict_repeated_keys_last_wins:
  "(even (length vs) \<and> (\<forall>i<length vs. even i \<longrightarrow> (\<exists>key. vs ! i = IString key)) \<longrightarrow>
     (\<exists>m. dict vs = Inr m \<and>
        (\<forall>i j key. i \<le> j \<and> j < length vs \<and> even i \<and> even j \<and>
            vs ! i = IString key \<and> vs ! j = IString key \<and>
            (\<forall>l<length vs. j < l \<and> even l \<longrightarrow> vs ! l \<noteq> IString key)
            \<longrightarrow> m key = Some (vs ! (j + 1))))) \<and>
   dict ([] :: 'a iface list) = Inr Map.empty"
proof (intro conjI impI)
  assume a: "even (length vs) \<and> (\<forall>i<length vs. even i \<longrightarrow> (\<exists>key. vs ! i = IString key))"
  then have "\<not> (\<exists>j. 0 \<le> j \<and> j < length vs \<and> even j \<and> (\<forall>key. vs ! j \<noteq> IString key))"
    by blast
  moreover from a have "(\<exists>msg. dict_loop vs 0 Map.empty = Inl (Error msg)) \<longleftrightarrow>
      (\<exists>j. 0 \<le> j \<and> j < length vs \<and> even j \<and> (\<forall>key. vs ! j \<noteq> IString key))"
    by (intro dict_loop_error_iff) simp_all
  ultimately have noerr: "\<And>msg. dict_loop vs 0 Map.empty \<noteq> Inl (Error msg)"
    by blast
  from a have nopanic: "\<And>p. dict_loop vs 0 Map.empty \<noteq> Inl (Panic p)"
    using dict_loop_no_panic [of vs 0 Map.empty] by simp
  obtain m where loop: "dict_loop vs 0 Map.empty = Inr m"
  proof (cases "dict_loop vs 0 Map.empty")
    case (Inl f)
    with noerr nopanic show ?thesis by (cases f) auto
  next
    case (Inr m)
    with that show ?thesis .
  qed
  with a have ok: "dict vs = Inr m" by (simp add: dict_cases)
  have "m key = Some (vs ! (j + 1))"
    if "i \<le> j \<and> j < length vs \<and> even i \<and> even j \<and>
            vs ! i = IString key \<and> vs ! j = IString key \<and>
            (\<forall>l<length vs. j < l \<and> even l \<longrightarrow> vs ! l \<noteq> IString key)" for i j key
    using dict_loop_lookup [OF loop, of key] that by auto
  with ok show "\<exists>m. dict vs = Inr m \<and>
        (\<forall>i j key. i \<le> j \<and> j < length vs \<and> even i \<and> even j \<and>
            vs ! i = IString key \<and> vs ! j = IString key \<and>
            (\<forall>l<length vs. j < l \<and> even l \<longrightarrow> vs ! l \<noteq> IString key)
            \<longrightarrow> m key = Some (vs ! (j + 1)))"
    by blast
next
  show "dict ([] :: 'a iface list) = Inr Map.empty"
    by (simp add: dict_def dict_loop.simps)
qed

text \<open>\<^verbatim>\<open>dict("a", 1, "b", 2, "a", 3)\<close> maps \<^verbatim>\<open>a\<close> to 3 and \<^verbatim>\<open>b\<close> to 2.\<close>

theorem dict_repeated_keys_last_wins_witness:
  "even (length [IString ''a'', IOther (1::int), IString ''b'', IOther 2, IString ''a'', IOther 3]) \<and>
   (\<exists>m. dict [IString ''a'', IOther (1::int), IString ''b'', IOther 2, IString ''a'', IOther 3] = Inr m \<and>
      m ''a'' = Some (IOther 3) \<and> m ''b'' = Some (IOther 2))"
proof -
  let ?vs = "[IString ''a'', IOther (1::int), IString ''b'', IOther 2, IString ''a'', IOther 3]"
  have hyp: "even (length ?vs) \<and> (\<forall>i<length ?vs. even i \<longrightarrow> (\<exists>key. ?vs ! i = IString key))"
    by (simp add: All_less_Suc)
  with dict_repeated_keys_last_wins [of ?vs] obtain m where m: "dict ?vs = Inr m"
    and latest: "\<forall>i j key. i \<le> j \<and> j < length ?vs \<and> even i \<and> even j \<and>
            ?vs ! i = IString key \<and> ?vs ! j = IString key \<and>
            (\<forall>l<length ?vs. j < l \<and> even l \<longrightarrow> ?vs ! l \<noteq> IString key)
            \<longrightarrow> m key = Some (?vs ! (j + 1))"
    by blast
  from latest [rule_format, of 0 4 "''a''"] have a: "m ''a'' = Some (IOther 3)"
    by (simp add: All_less_Suc)
  from latest [rule_format, of 2 2 "''b''"] have b: "m ''b'' = Some (IOther 2)"
    by (simp add: All_less_Suc)
  from hyp m a b show ?thesis by blast
qed

section \<open>Properties of the start of \<open>main\<close>\<close>

lemma compose_events:
  "fst (compose w dir page) =
     [TemplateNew ''layout.tmpl'', TemplateFuncs funcMap,
      ParseFiles (Funcs funcMap (template_New ''layout.tmpl'')) (fragment_files dir page)]"
  by (simp add: compose_def Let_def)


lemma build_cache_Inr:
  "build_cache w dir ps c = (evs, Inr cache) \<Longrightarrow>
   (\<forall>p\<in>set ps. \<exists>u. snd (compose w dir p) = Inr u \<and> cache p = Some u \<and> CachePut p \<in> set evs) \<and>
   (\<forall>p. p \<notin> set ps \<longrightarrow> cache p = c p)"
proof (induction ps arbitrary: c evs)
  case Nil
  then show ?case by simp
next
  case (Cons page rest)
  from Cons.prems obtain e0 u where comp: "compose w dir page = (e0, Inr u)"
    by (auto split: prod.splits sum.splits)
  with Cons.prems obtain e1 where rest: "build_cache w dir rest (c(page \<mapsto> u)) = (e1, Inr cache)"
    and evs: "evs = e0 @ [CachePut page] @ e1"
    by (auto split: prod.splits)
  note ih = Cons.IH [OF rest]
  show ?case
  proof (intro conjI ballI allI impI)
    fix p assume "p \<in> set (page # rest)"
    show "\<exists>u. snd (compose w dir p) = Inr u \<and> cache p = Some u \<and> CachePut p \<in> set evs"
    proof (cases "p \<in> set rest")
      case True
      with ih evs show ?thesis by auto
    next
      case False
      with \<open>p \<in> set (page # rest)\<close> have "p = page" by simp
      with False ih comp evs show ?thesis by auto
    qed
  next
    fix p assume "p \<notin> set (page # rest)"
    with ih show "cache p = c p" by auto
  qed
qed

lemma build_cache_Inl:
  "p \<in> set ps \<Longrightarrow> snd (compose w dir p) = Inl err \<Longrightarrow>
   \<exists>evs e. build_cache w dir ps c = (evs, Inl e) \<and> evs \<noteq> [] \<and>
      last evs = LogFatal [''error parsing files: '', e]"
proof (induction ps arbitrary: c)
  case Nil
  then show ?case by simp
next
  case (Cons page rest)
  show ?case
  proof (cases "compose w dir page")
    case (Pair e0 r)
    show ?thesis
    proof (cases r)
      case (Inl e)
      with Pair show ?thesis by simp
    next
      case (Inr u)
      with Pair Cons.prems have "p \<in> set rest" by auto
      from Cons.IH [OF this Cons.prems(2), of "c(page \<mapsto> u)"]
      obtain evs e where "build_cache w dir rest (c(page \<mapsto> u)) = (evs, Inl e)" "evs \<noteq> []"
        "last evs = LogFatal [''error parsing files: '', e]" by blast
      with Pair Inr show ?thesis by simp
    qed
  qed
qed

lemma build_cache_Cons_ok:
  "snd (compose w dir page) = Inr u \<Longrightarrow>
   build_cache w dir (page # rest) c =
     (fst (compose w dir page) @ [CachePut page] @ fst (build_cache w dir rest (c(page \<mapsto> u))),
      snd (build_cache w dir rest (c(page \<mapsto> u))))"
  by (cases "compose w dir page") (simp split: prod.splits)

lemma build_cache_Cons_err:
  "snd (compose w dir page) = Inl err \<Longrightarrow>
   build_cache w dir (page # rest) c =
     (fst (compose w dir page) @ [LogFatal [''error parsing files: '', err]], Inl err)"
  by (cases "compose w dir page") simp

lemma build_cache_events:
  "e \<in> set (fst (build_cache w dir ps c)) \<Longrightarrow>
   (\<exists>n. e = TemplateNew n) \<or> (\<exists>fm. e = TemplateFuncs fm) \<or> (\<exists>t fs. e = ParseFiles t fs) \<or>
   (\<exists>p. e = CachePut p) \<or> (\<exists>m. e = LogFatal m)"
proof (induction ps arbitrary: c)
  case Nil
  then show ?case by simp
next
  case (Cons page rest)
  show ?case
  proof (cases "snd (compose w dir page)")
    case (Inl err)
    from Cons.prems show ?thesis
      by (auto simp: build_cache_Cons_err [OF Inl] compose_events simp del: build_cache.simps)
  next
    case (Inr u)
    from Cons.prems have "e \<in> set (fst (compose w dir page)) \<or> e = CachePut page \<or>
        e \<in> set (fst (build_cache w dir rest (c(page \<mapsto> u))))"
      by (auto simp: build_cache_Cons_ok [OF Inr] simp del: build_cache.simps)
    then show ?thesis
    proof (elim disjE)
      assume "e \<in> set (fst (build_cache w dir rest (c(page \<mapsto> u))))"
      then show ?thesis by (rule Cons.IH)
    qed (auto simp: compose_events)
  qed
qed



section \<open>Properties of serving\<close>

lemma handle_root_events:
  "e \<in> set (fst (handle_root w cache r)) \<Longrightarrow> (\<exists>k d. e = Execute k d) \<or> (\<exists>m. e = LogFatal m)"
  by (auto simp: handle_root_def split: option.splits prod.splits)

lemma handle_about_events:
  "e \<in> set (fst (handle_about w cache r)) \<Longrightarrow> (\<exists>k d. e = Execute k d) \<or> (\<exists>m. e = LogFatal m)"
  by (auto simp: handle_about_def split: option.splits prod.splits)

lemma dispatch_events:
  "e \<in> set (fst (dispatch w (handlers w cache) r)) \<Longrightarrow>
   (\<exists>k d. e = Execute k d) \<or> (\<exists>m. e = LogFatal m)"
  using handle_root_events [of e w cache r] handle_about_events [of e w cache r]
  by (auto simp: dispatch_def handlers_def split: option.splits prod.splits if_splits)

lemma serve_events:
  "e \<in> set (fst (serve w (handlers w cache) rs)) \<Longrightarrow>
   (\<exists>k d. e = Execute k d) \<or> (\<exists>m. e = LogFatal m)"
proof (induction rs)
  case Nil
  then show ?case by simp
next
  case (Cons r rs)
  obtain evs oc where d: "dispatch w (handlers w cache) r = (evs, oc)" by (cases "dispatch w (handlers w cache) r")
  obtain evs' reps run where s: "serve w (handlers w cache) rs = (evs', reps, run)"
    by (cases "serve w (handlers w cache) rs")
  from Cons.prems d s have "e \<in> set evs \<or> e \<in> set evs'"
    by (auto split: option.splits outcome.splits)
  then show ?case
  proof
    assume "e \<in> set evs"
    with d dispatch_events [of e w cache r] show ?thesis by simp
  next
    assume "e \<in> set evs'"
    with s Cons.IH show ?thesis by simp
  qed
qed

section \<open>Properties of whole runs\<close>

lemma startup_Some:
  "startup w = (evs, Some cache) \<Longrightarrow>
   \<exists>dir evs0. os_Getwd w = Inr dir \<and> build_cache w dir pages Map.empty = (evs0, Inr cache) \<and>
      evs = Println [''Working directory: '', dir] # evs0"
  by (auto simp: startup_def split: sum.splits prod.splits)

lemma startup_events:
  "e \<in> set (fst (startup w)) \<Longrightarrow>
   (\<exists>m. e = Println m) \<or> (\<exists>n. e = TemplateNew n) \<or> (\<exists>fm. e = TemplateFuncs fm) \<or>
   (\<exists>t fs. e = ParseFiles t fs) \<or> (\<exists>p. e = CachePut p) \<or> (\<exists>m. e = LogFatal m)"
proof (cases "os_Getwd w")
  case (Inl err)
  assume "e \<in> set (fst (startup w))"
  with Inl show ?thesis by (auto simp: startup_def)
next
  case (Inr dir)
  assume "e \<in> set (fst (startup w))"
  with Inr have "(\<exists>m. e = Println m) \<or> e \<in> set (fst (build_cache w dir pages Map.empty))"
    by (auto simp: startup_def split: sum.splits prod.splits)
  with build_cache_events [of e w dir pages Map.empty] show ?thesis by blast
qed



lemma main_events:
  "fst (main w reqs) = fst (startup w) \<or>
   (\<exists>cache tl. snd (startup w) = Some cache \<and>
      fst (main w reqs) = fst (startup w) @ [HandleFunc ''/'', HandleFunc ''/about'',
         Println [''Serving...''], ListenAndServe '':8080''] @ tl \<and>
      (tl = [] \<or> tl = fst (serve w (handlers w cache) reqs)))"
  by (cases "startup w") (auto simp: main_def Let_def split: option.splits prod.splits)

section \<open>The claims about \<open>main\<close>\<close>



text \<open>
  Claim C4. When the start of \<open>main\<close> has completed, the cache holds for
  \<^verbatim>\<open>home\<close> and for \<^verbatim>\<open>about\<close> (the keys the two handlers look up) the unit that
  composing that page produced. A reply is sent only after a start that has
  completed. In the events of a run, both pages are stored in the cache before
  the call of \<^verbatim>\<open>ListenAndServe\<close>, and nothing is stored in the cache after it.
\<close>

theorem cache_complete_before_serving:
  "(startup w = (evs, Some cache) \<longrightarrow>
      (\<exists>dir home about. os_Getwd w = Inr dir \<and>
         snd (compose w dir ''home'') = Inr home \<and> cache ''home'' = Some home \<and>
         snd (compose w dir ''about'') = Inr about \<and> cache ''about'' = Some about)) \<and>
   (snd (main w reqs) \<noteq> [] \<longrightarrow> (\<exists>evs cache. startup w = (evs, Some cache))) \<and>
   (\<forall>pre post. fst (main w reqs) = pre @ ListenAndServe '':8080'' # post \<longrightarrow>
      CachePut ''home'' \<in> set pre \<and> CachePut ''about'' \<in> set pre \<and>
      (\<forall>page. CachePut page \<notin> set post))"
proof -
  have first: "\<exists>dir home about. os_Getwd w = Inr dir \<and>
         snd (compose w dir ''home'') = Inr home \<and> cache ''home'' = Some home \<and>
         snd (compose w dir ''about'') = Inr about \<and> cache ''about'' = Some about"
    if s: "startup w = (evs, Some cache)"
  proof -
  from startup_Some [OF s] obtain dir evs0 where dir: "os_Getwd w = Inr dir"
    and b: "build_cache w dir pages Map.empty = (evs0, Inr cache)" by blast
  from build_cache_Inr [OF b] have
    "\<exists>u. snd (compose w dir ''home'') = Inr u \<and> cache ''home'' = Some u"
    "\<exists>u. snd (compose w dir ''about'') = Inr u \<and> cache ''about'' = Some u"
    by (auto simp: pages_def)
  with dir show ?thesis by blast
  qed
  have second: "\<exists>evs cache. startup w = (evs, Some cache)" if "snd (main w reqs) \<noteq> []"
    using that by (cases "startup w") (auto simp: main_def split: option.splits)
  have third: "CachePut ''home'' \<in> set pre \<and> CachePut ''about'' \<in> set pre \<and>
      (\<forall>page. CachePut page \<notin> set post)"
    if tr: "fst (main w reqs) = pre @ ListenAndServe '':8080'' # post" for pre post
  proof -
  have no_listen: "ListenAndServe '':8080'' \<notin> set (fst (startup w))"
    using startup_events [of "ListenAndServe '':8080''" w] by auto
  from main_events [of w reqs]
  have "\<exists>cache tl. snd (startup w) = Some cache \<and>
      fst (main w reqs) = fst (startup w) @ [HandleFunc ''/'', HandleFunc ''/about'',
         Println [''Serving...''], ListenAndServe '':8080''] @ tl \<and>
      (tl = [] \<or> tl = fst (serve w (handlers w cache) reqs))"
  proof
    assume "fst (main w reqs) = fst (startup w)"
    with tr no_listen show ?thesis by auto
  qed
  then obtain cache tl where c: "snd (startup w) = Some cache"
    and m: "fst (main w reqs) = (fst (startup w) @ [HandleFunc ''/'', HandleFunc ''/about'',
         Println [''Serving...'']]) @ ListenAndServe '':8080'' # tl"
    and tl: "tl = [] \<or> tl = fst (serve w (handlers w cache) reqs)" by auto
  from tl have tl_ev: "\<And>e. e \<in> set tl \<Longrightarrow> (\<exists>k d. e = Execute k d) \<or> (\<exists>m. e = LogFatal m)"
    using serve_events [of _ w cache reqs] by auto
  then have n2: "ListenAndServe '':8080'' \<notin> set tl" by blast
  from no_listen have n1: "ListenAndServe '':8080'' \<notin>
      set (fst (startup w) @ [HandleFunc ''/'', HandleFunc ''/about'', Println [''Serving...'']])"
    by simp
  have eq: "(fst (startup w) @ [HandleFunc ''/'', HandleFunc ''/about'',
         Println [''Serving...'']]) @ ListenAndServe '':8080'' # tl =
       pre @ ListenAndServe '':8080'' # post"
    unfolding tr [symmetric] by (rule m [symmetric])
  have "fst (startup w) @ [HandleFunc ''/'', HandleFunc ''/about'',
         Println [''Serving...'']] = pre \<and> tl = post"
    by (rule append_Cons_eq_iff [THEN iffD1, OF n1 n2 eq])
  then have split: "pre = fst (startup w) @ [HandleFunc ''/'', HandleFunc ''/about'',
         Println [''Serving...'']]" "post = tl"
    by blast+
  from c obtain evs where s: "startup w = (evs, Some cache)" by (cases "startup w") simp
  from startup_Some [OF s] obtain dir evs0 where
    b: "build_cache w dir pages Map.empty = (evs0, Inr cache)"
    and evs: "evs = Println [''Working directory: '', dir] # evs0" by blast
  from build_cache_Inr [OF b] have "CachePut ''home'' \<in> set evs0" "CachePut ''about'' \<in> set evs0"
    by (auto simp: pages_def)
  with s evs split have "CachePut ''home'' \<in> set pre" "CachePut ''about'' \<in> set pre" by simp_all
  moreover from tl_ev split have "\<forall>page. CachePut page \<notin> set post" by blast
  ultimately show ?thesis by blast
  qed
  from first second third show ?thesis by blast
qed

text \<open>The start of \<open>main\<close> in the sample environment with no file missing.\<close>

lemma demo_startup:
  "startup (demo_world None s) =
    ([Println [''Working directory: '', ''/srv''],
      TemplateNew ''layout.tmpl'', TemplateFuncs funcMap,
      ParseFiles (Funcs funcMap (template_New ''layout.tmpl'')) (fragment_files ''/srv'' ''home''),
      CachePut ''home'',
      TemplateNew ''layout.tmpl'', TemplateFuncs funcMap,
      ParseFiles (Funcs funcMap (template_New ''layout.tmpl'')) (fragment_files ''/srv'' ''about''),
      CachePut ''about''],
     Some [''home'' \<mapsto> concat (fragment_files ''/srv'' ''home''),
           ''about'' \<mapsto> concat (fragment_files ''/srv'' ''about'')])"
  by (simp add: startup_def pages_def compose_def Let_def demo_world_def Funcs_def
      template_New_def funcMap_def)

text \<open>A start that ends in \<^verbatim>\<open>log.Fatal\<close> serves nothing.\<close>

lemma startup_None_no_serving:
  "snd (startup w) = None \<Longrightarrow> main w reqs = (fst (startup w), [])"
  by (cases "startup w") (simp add: main_def)

lemma startup_parse_failure:
  assumes "os_Getwd w = Inr dir" "page \<in> set pages" "snd (compose w dir page) = Inl err"
  shows "\<exists>evs0 e. startup w = (Println [''Working directory: '', dir] # evs0, None) \<and>
     evs0 \<noteq> [] \<and> last evs0 = LogFatal [''error parsing files: '', e]"
proof -
  from build_cache_Inl [OF assms(2,3), of Map.empty] obtain evs0 e where
    "build_cache w dir pages Map.empty = (evs0, Inl e)" "evs0 \<noteq> []"
    "last evs0 = LogFatal [''error parsing files: '', e]" by blast
  with assms(1) show ?thesis by (simp add: startup_def)
qed

text \<open>
  Claim C6. If composing some page of the list fails, the run of \<open>main\<close> ends in
  \<^verbatim>\<open>log.Fatal\<close> with the message of the parse error: no reply is sent, whatever the
  requests, and no handler is registered, \<^verbatim>\<open>ListenAndServe\<close> is not called and no
  template is rendered, also when pages before the failing one have been stored
  in the cache.
\<close>

theorem compose_failure_is_fatal:
  "os_Getwd w = Inr dir \<Longrightarrow> page \<in> set pages \<Longrightarrow> snd (compose w dir page) = Inl err \<Longrightarrow>
   \<exists>tr e. main w reqs = (tr, []) \<and> tr \<noteq> [] \<and>
     last tr = LogFatal [''error parsing files: '', e] \<and>
     (\<forall>a. ListenAndServe a \<notin> set tr) \<and> (\<forall>p. HandleFunc p \<notin> set tr) \<and>
     (\<forall>k d. Execute k d \<notin> set tr)"
proof -
  assume a: "os_Getwd w = Inr dir" "page \<in> set pages" "snd (compose w dir page) = Inl err"
  from startup_parse_failure [OF a] obtain evs0 e where
    s: "startup w = (Println [''Working directory: '', dir] # evs0, None)"
    and l: "evs0 \<noteq> []" "last evs0 = LogFatal [''error parsing files: '', e]" by blast
  let ?tr = "Println [''Working directory: '', dir] # evs0"
  from s have m: "main w reqs = (?tr, [])"
    using startup_None_no_serving [of w reqs] by simp
  have ev: "(\<exists>m. x = Println m) \<or> (\<exists>n. x = TemplateNew n) \<or> (\<exists>fm. x = TemplateFuncs fm) \<or>
      (\<exists>t fs. x = ParseFiles t fs) \<or> (\<exists>p. x = CachePut p) \<or> (\<exists>m. x = LogFatal m)"
    if "x \<in> set ?tr" for x
    using startup_events [of x w] that s by simp
  have "\<forall>a. ListenAndServe a \<notin> set ?tr" using ev by blast
  moreover have "\<forall>p. HandleFunc p \<notin> set ?tr" using ev by blast
  moreover have "\<forall>k d. Execute k d \<notin> set ?tr" using ev by blast
  moreover from l have "last ?tr = LogFatal [''error parsing files: '', e]" by simp
  ultimately show ?thesis using m by blast
qed

lemma serve_single_root:
  "http_route w [''/'', ''/about''] r = Some ''/'' \<Longrightarrow> cache ''home'' = Some u \<Longrightarrow>
   dispatch w (handlers w cache) r =
       (case template_Execute w u (Some [''name'' \<mapsto> IString ''Jan'']) of
          (out, None) \<Rightarrow>
            ([Execute ''home'' (Some [''name'' \<mapsto> IString ''Jan''])], Some (Returned out))
        | (out, Some err) \<Rightarrow>
            ([Execute ''home'' (Some [''name'' \<mapsto> IString ''Jan'']),
              LogFatal [''can't execute template. '', err]], Some Exited))"
  by (simp add: dispatch_def handlers_def handle_root_def split: prod.splits option.splits)

lemma serve_single_about:
  "http_route w [''/'', ''/about''] r = Some ''/about'' \<Longrightarrow> cache ''about'' = Some u \<Longrightarrow>
   dispatch w (handlers w cache) r =
       (case template_Execute w u None of
          (out, None) \<Rightarrow> ([Execute ''about'' None], Some (Returned out))
        | (out, Some err) \<Rightarrow>
            ([Execute ''about'' None, LogFatal [''can't execute template. '', err]],
             Some Exited))"
  by (simp add: dispatch_def handlers_def handle_about_def split: prod.splits option.splits)

text \<open>
  Claim C5. After a completed start, a request that the mux gives to the handler
  of \<^verbatim>\<open>/\<close> is answered by rendering the unit composed for \<^verbatim>\<open>home\<close> with the data
  \<^verbatim>\<open>{"name": "Jan"}\<close>, and a request given to the handler of \<^verbatim>\<open>/about\<close> by
  rendering the unit composed for \<^verbatim>\<open>about\<close> with nil data; when rendering
  returns no error, the reply is the rendered bytes.
\<close>

theorem routes_render_cached_units:
  "startup w = (evs, Some cache) \<Longrightarrow>
   (http_route w [''/'', ''/about''] r = Some ''/'' \<longrightarrow>
      (\<exists>dir u. os_Getwd w = Inr dir \<and> snd (compose w dir ''home'') = Inr u \<and>
         serve w (handlers w cache) [r] =
           (case template_Execute w u (Some [''name'' \<mapsto> IString ''Jan'']) of
              (out, None) \<Rightarrow>
                ([Execute ''home'' (Some [''name'' \<mapsto> IString ''Jan''])],
                 [Rendered out], True)
            | (out, Some err) \<Rightarrow>
                ([Execute ''home'' (Some [''name'' \<mapsto> IString ''Jan'']),
                  LogFatal [''can't execute template. '', err]], [], False)))) \<and>
   (http_route w [''/'', ''/about''] r = Some ''/about'' \<longrightarrow>
      (\<exists>dir u. os_Getwd w = Inr dir \<and> snd (compose w dir ''about'') = Inr u \<and>
         serve w (handlers w cache) [r] =
           (case template_Execute w u None of
              (out, None) \<Rightarrow> ([Execute ''about'' None], [Rendered out], True)
            | (out, Some err) \<Rightarrow>
                ([Execute ''about'' None, LogFatal [''can't execute template. '', err]],
                 [], False))))"
proof -
  assume s: "startup w = (evs, Some cache)"
  from startup_Some [OF s] obtain dir evs0 where dir: "os_Getwd w = Inr dir"
    and b: "build_cache w dir pages Map.empty = (evs0, Inr cache)" by blast
  from build_cache_Inr [OF b] obtain home about where
    h: "snd (compose w dir ''home'') = Inr home" "cache ''home'' = Some home" and
    a: "snd (compose w dir ''about'') = Inr about" "cache ''about'' = Some about"
    by (auto simp: pages_def)
  have "serve w (handlers w cache) [r] =
           (case template_Execute w home (Some [''name'' \<mapsto> IString ''Jan'']) of
              (out, None) \<Rightarrow>
                ([Execute ''home'' (Some [''name'' \<mapsto> IString ''Jan''])],
                 [Rendered out], True)
            | (out, Some err) \<Rightarrow>
                ([Execute ''home'' (Some [''name'' \<mapsto> IString ''Jan'']),
                  LogFatal [''can't execute template. '', err]], [], False))"
    if "http_route w [''/'', ''/about''] r = Some ''/''"
    by (simp add: serve_single_root [of w r cache home, OF that h(2)] split: prod.splits option.splits)
  moreover have "serve w (handlers w cache) [r] =
           (case template_Execute w about None of
              (out, None) \<Rightarrow> ([Execute ''about'' None], [Rendered out], True)
            | (out, Some err) \<Rightarrow>
                ([Execute ''about'' None, LogFatal [''can't execute template. '', err]],
                 [], False))"
    if "http_route w [''/'', ''/about''] r = Some ''/about''"
    by (simp add: serve_single_about [of w r cache about, OF that a(2)] split: prod.splits option.splits)
  ultimately show ?thesis using dir h(1) a(1) by blast
qed





section \<open>The claims in the sample environment\<close>

lemma demo_cache:
  "\<exists>evs. startup (demo_world None s) =
     (evs, Some [''home'' \<mapsto> concat (fragment_files ''/srv'' ''home''),
                 ''about'' \<mapsto> concat (fragment_files ''/srv'' ''about'')])"
  by (simp add: demo_startup)

text \<open>
  With no file missing, the start completes with both pages in the cache, a
  request for \<^verbatim>\<open>/\<close> is answered, and the stores come before \<^verbatim>\<open>ListenAndServe\<close>.
\<close>

theorem cache_complete_before_serving_witness:
  "(\<exists>evs cache home about. startup (demo_world None False) = (evs, Some cache) \<and>
      snd (compose (demo_world None False) ''/srv'' ''home'') = Inr home \<and>
      snd (compose (demo_world None False) ''/srv'' ''about'') = Inr about \<and>
      cache ''home'' = Some home \<and> cache ''about'' = Some about) \<and>
   snd (main (demo_world None False) [\<lparr>req_method = ''GET'', req_path = ''/''\<rparr>]) \<noteq> [] \<and>
   (\<exists>pre post.
      fst (main (demo_world None False) [\<lparr>req_method = ''GET'', req_path = ''/''\<rparr>]) =
        pre @ ListenAndServe '':8080'' # post \<and>
      CachePut ''home'' \<in> set pre \<and> CachePut ''about'' \<in> set pre \<and>
      (\<forall>page. CachePut page \<notin> set post))"
proof -
  let ?w = "demo_world None False"
  let ?root = "\<lparr>req_method = ''GET'', req_path = ''/''\<rparr>"
  let ?u = "concat (fragment_files ''/srv'' ''home'')"
  from demo_startup [of False] obtain evs cache where s: "startup ?w = (evs, Some cache)"
    and c: "cache ''home'' = Some ?u"
    by simp
  have dir: "os_Getwd ?w = Inr ''/srv''"
    and l: "http_ListenAndServe ?w '':8080'' = None"
    and r: "http_route ?w [''/'', ''/about''] ?root = Some ''/''"
    and x: "template_Execute ?w ?u (Some [''name'' \<mapsto> IString ''Jan'']) = (?u @ ''Jan'', None)"
    by (simp_all add: demo_world_def)
  have sv: "serve ?w (handlers ?w cache) [?root] =
      ([Execute ''home'' (Some [''name'' \<mapsto> IString ''Jan''])], [Rendered (?u @ ''Jan'')], True)"
    by (simp add: serve_single_root [of ?w ?root cache ?u, OF r c] x)
  from s l sv have m: "main ?w [?root] =
      ((evs @ [HandleFunc ''/'', HandleFunc ''/about'', Println [''Serving...'']]) @
         ListenAndServe '':8080'' # [Execute ''home'' (Some [''name'' \<mapsto> IString ''Jan''])],
       [Rendered (?u @ ''Jan'')])"
    by (simp add: main_def)
  then have tr: "\<exists>pre post. fst (main ?w [?root]) = pre @ ListenAndServe '':8080'' # post"
    by (metis fst_conv)
  from m have served: "snd (main ?w [?root]) \<noteq> []" by simp
  note inst = cache_complete_before_serving [of ?w evs cache "[?root]"]
  from inst s dir have "\<exists>home about.
      snd (compose ?w ''/srv'' ''home'') = Inr home \<and>
      snd (compose ?w ''/srv'' ''about'') = Inr about \<and>
      cache ''home'' = Some home \<and> cache ''about'' = Some about"
    by auto
  moreover from inst tr have "\<exists>pre post.
      fst (main ?w [?root]) = pre @ ListenAndServe '':8080'' # post \<and>
      CachePut ''home'' \<in> set pre \<and> CachePut ''about'' \<in> set pre \<and>
      (\<forall>page. CachePut page \<notin> set post)"
    by blast
  ultimately show ?thesis using s served by blast
qed

text \<open>
  The two routes in the sample environment: \<^verbatim>\<open>/\<close> renders \<^verbatim>\<open>home\<close> with the name
  \<^verbatim>\<open>Jan\<close>, \<^verbatim>\<open>/about\<close> renders \<^verbatim>\<open>about\<close> with nil data.
\<close>

theorem routes_render_cached_units_witness:
  "\<exists>evs cache. startup (demo_world None False) = (evs, Some cache) \<and>
     http_route (demo_world None False) [''/'', ''/about'']
       \<lparr>req_method = ''GET'', req_path = ''/''\<rparr> = Some ''/'' \<and>
     serve (demo_world None False) (handlers (demo_world None False) cache)
       [\<lparr>req_method = ''GET'', req_path = ''/''\<rparr>] =
       ([Execute ''home'' (Some [''name'' \<mapsto> IString ''Jan''])],
        [Rendered (concat (fragment_files ''/srv'' ''home'') @ ''Jan'')], True) \<and>
     http_route (demo_world None False) [''/'', ''/about'']
       \<lparr>req_method = ''GET'', req_path = ''/about''\<rparr> = Some ''/about'' \<and>
     serve (demo_world None False) (handlers (demo_world None False) cache)
       [\<lparr>req_method = ''GET'', req_path = ''/about''\<rparr>] =
       ([Execute ''about'' None],
        [Rendered (concat (fragment_files ''/srv'' ''about''))], True)"
proof -
  let ?w = "demo_world None False"
  let ?root = "\<lparr>req_method = ''GET'', req_path = ''/''\<rparr>"
  let ?about = "\<lparr>req_method = ''GET'', req_path = ''/about''\<rparr>"
  from demo_cache [of False] obtain evs cache where s: "startup ?w = (evs, Some cache)"
    by blast
  have r1: "http_route ?w [''/'', ''/about''] ?root = Some ''/''"
    and r2: "http_route ?w [''/'', ''/about''] ?about = Some ''/about''"
    by (simp_all add: demo_world_def)
  have dir: "os_Getwd ?w = Inr ''/srv''" by (simp add: demo_world_def)
  have c1: "snd (compose ?w ''/srv'' ''home'') = Inr (concat (fragment_files ''/srv'' ''home''))"
    and c2: "snd (compose ?w ''/srv'' ''about'') = Inr (concat (fragment_files ''/srv'' ''about''))"
    by (simp_all add: compose_def Let_def demo_world_def Funcs_def template_New_def funcMap_def)
  have x1: "template_Execute ?w (concat (fragment_files ''/srv'' ''home''))
      (Some [''name'' \<mapsto> IString ''Jan'']) =
      (concat (fragment_files ''/srv'' ''home'') @ ''Jan'', None)"
    and x2: "template_Execute ?w (concat (fragment_files ''/srv'' ''about'')) None =
      (concat (fragment_files ''/srv'' ''about''), None)"
    by (simp_all add: demo_world_def)
  from routes_render_cached_units [OF s, of ?root] r1 dir c1 x1
  have "serve ?w (handlers ?w cache) [?root] =
       ([Execute ''home'' (Some [''name'' \<mapsto> IString ''Jan''])],
        [Rendered (concat (fragment_files ''/srv'' ''home'') @ ''Jan'')], True)"
    by auto
  moreover from routes_render_cached_units [OF s, of ?about] r2 dir c2 x2
  have "serve ?w (handlers ?w cache) [?about] =
       ([Execute ''about'' None],
        [Rendered (concat (fragment_files ''/srv'' ''about''))], True)"
    by auto
  ultimately show ?thesis using s r1 r2 by blast
qed

text \<open>
  With the page file of \<^verbatim>\<open>about\<close> missing, \<^verbatim>\<open>home\<close> is composed and \<^verbatim>\<open>about\<close> is
  not: the run ends in \<^verbatim>\<open>log.Fatal\<close> and never listens.
\<close>

theorem compose_failure_is_fatal_witness:
  "os_Getwd (demo_world (Some ''/srv/templates/pages/about.tmpl'') False) = Inr ''/srv'' \<and>
   ''about'' \<in> set pages \<and>
   snd (compose (demo_world (Some ''/srv/templates/pages/about.tmpl'') False) ''/srv'' ''about'') =
     Inl ''no such file'' \<and>
   (\<exists>u. snd (compose (demo_world (Some ''/srv/templates/pages/about.tmpl'') False) ''/srv'' ''home'') =
     Inr u) \<and>
   (\<exists>tr e. main (demo_world (Some ''/srv/templates/pages/about.tmpl'') False)
        [\<lparr>req_method = ''GET'', req_path = ''/''\<rparr>] = (tr, []) \<and>
      last tr = LogFatal [''error parsing files: '', e] \<and>
      (\<forall>a. ListenAndServe a \<notin> set tr))"
proof -
  let ?w = "demo_world (Some ''/srv/templates/pages/about.tmpl'') False"
  have dir: "os_Getwd ?w = Inr ''/srv''" by (simp add: demo_world_def)
  have pg: "''about'' \<in> set pages" by (simp add: pages_def)
  have c2: "snd (compose ?w ''/srv'' ''about'') = Inl ''no such file''"
    by (simp add: compose_def Let_def demo_world_def Funcs_def template_New_def funcMap_def
        fragment_files_def)
  have c1: "\<exists>u. snd (compose ?w ''/srv'' ''home'') = Inr u"
    by (simp add: compose_def Let_def demo_world_def Funcs_def template_New_def funcMap_def
        fragment_files_def)
  from compose_failure_is_fatal [OF dir pg c2, of "[\<lparr>req_method = ''GET'', req_path = ''/''\<rparr>]"]
  have "\<exists>tr e. main ?w [\<lparr>req_method = ''GET'', req_path = ''/''\<rparr>] = (tr, []) \<and>
      last tr = LogFatal [''error parsing files: '', e] \<and>
      (\<forall>a. ListenAndServe a \<notin> set tr)"
    by blast
  with dir pg c1 c2 show ?thesis by blast
qed


end
